theory Spec2Isabelle
  imports Main
begin

section \<open>The AST walker of pigeon's \<open>ast\<close> package\<close>

text \<open>
  The package has two versions of its walker. The file \<open>part_000\<close> hands every visitor a
  \<open>Backref\<close> (functions \<open>Walk\<close>, \<open>walk0\<close>, \<open>Inspect\<close>); the file \<open>ast_walk.go\<close>
  keeps the plain \<open>Visitor\<close> and upgrades a visitor that is also a \<open>VisitReplacer\<close>
  (functions \<open>Walk\<close>, \<open>walkVisitor\<close>, \<open>walkReplacer\<close>, \<open>Inspect\<close>). Both are embedded
  here; the names of the second version carry the suffix \<open>_VR\<close> where they clash.
\<close>

subsection \<open>Data model\<close>

text \<open>
  The walker works on Go pointers, and a visitor overwrites child slots while the walk
  is running, so the tree lives in an explicit heap: a partial map from addresses to nodes.
  An \<open>Expression\<close> is a Go interface value: \<open>Nil\<close>, or a pointer to a node.

  Limits of the model. The dynamic type of an interface value is the kind of the node it
  points to, so every pointer is non-nil (Go's typed nil pointers are not represented), and
  a visitor is expected to leave the kind of a node alone, as Go code must. A slice is
  kept inside its node: writes to its elements are represented, the replacement of a whole
  slice by a visitor is not.
\<close>

type_synonym addr = nat

datatype expression = Nil | Ref addr

text \<open>
  Modelled from the spec: the declarations of the node types (file \<open>ast.go\<close>) are not among
  the sources. The constructors are the eighteen pointer types of the walker's type
  switches, each with the child field the walker reads (\<open>Expr\<close>, \<open>Alternatives\<close>, \<open>Rules\<close>,
  \<open>Exprs\<close>), as in the table of the specification's data model. \<open>Rules\<close> has the element
  type \<open>*Rule\<close>, so it holds addresses. \<open>OtherExpr\<close> stands for any other type that
  implements \<open>Expression\<close>. Fields that the walker neither reads nor writes (positions,
  names, code blocks, literal values) are left out.
\<close>

datatype node =
    ActionExpr expression
  | AndCodeExpr
  | AndExpr expression
  | AnyMatcher
  | CharClassMatcher
  | ChoiceExpr "expression list"
  | Grammar "addr list"
  | LabeledExpr expression
  | LitMatcher
  | NotCodeExpr
  | NotExpr expression
  | OneOrMoreExpr expression
  | Rule expression
  | RuleRefExpr
  | SeqExpr "expression list"
  | StateCodeExpr
  | ZeroOrMoreExpr expression
  | ZeroOrOneExpr expression
  | OtherExpr

type_synonym heap = "addr \<Rightarrow> node option"

text \<open>
  A Go panic is a value. \<open>UnknownExpressionType\<close> is the \<open>panic\<close> of the default branch,
  \<open>TypeAssertion\<close> the failed assertion \<open>expr.(*Rule)\<close>, \<open>IndexOutOfRange\<close> a slice write
  or read outside the slice, \<open>NilDereference\<close> the call of a nil function value or the use
  of an address that holds no node, \<open>VisitorPanic\<close> a panic raised by the visitor's own
  code.
\<close>

datatype fault =
    UnknownExpressionType
  | TypeAssertion
  | IndexOutOfRange
  | NilDereference
  | VisitorPanic

text \<open>
  \<open>Backref\<close> of \<open>part_000\<close>: the parent and the replacer closure. A closure that writes
  to the tree is a function from the new expression and the heap to the new heap, or a
  fault.
\<close>

type_synonym replacer_fn = "expression \<Rightarrow> heap \<Rightarrow> fault + heap"

record Backref =
  parent :: expression
  replacer :: replacer_fn

text \<open>
  A visitor is arbitrary Go code. It is called with the visitor value \<open>v\<close> (of type \<open>'v\<close>),
  the expression and the back-reference; it may read and write the heap and its own
  mutable state (of type \<open>'u\<close>), and it returns the visitor for the children (\<open>None\<close> is
  Go's nil visitor) or panics.
\<close>

type_synonym ('v, 'u) visitor =
  "'v \<Rightarrow> expression \<Rightarrow> Backref \<Rightarrow> heap \<Rightarrow> 'u \<Rightarrow> fault + ('v option \<times> heap \<times> 'u)"

text \<open>
  The state threaded through a walk: the heap, the visitor's own state, and the list
  of the arguments of all \<open>Visit\<close> calls made so far, in call order. The last field is a
  log kept by the model; no code reads it.
\<close>

record 'u world =
  hp :: heap
  vst :: 'u
  visited :: "expression list"

text \<open>
  A call ends by returning (\<open>Inr\<close>) or by a panic (\<open>Inl\<close>, with the state reached when
  the panic was raised). The heap may be cyclic, so the recursion takes fuel: \<open>None\<close>
  means that the fuel did not suffice.
\<close>

type_synonym 'u result = "((fault \<times> 'u world) + 'u world) option"

subsection \<open>The replacer closures (first switch of \<open>walk0\<close> and of \<open>walkReplacer\<close>)\<close>

text \<open>\<open>parent.Expr = expr\<close> for a parent of the kind built by \<open>mk\<close>.\<close>

definition set_Expr :: "(expression \<Rightarrow> node) \<Rightarrow> addr \<Rightarrow> replacer_fn" where
  "set_Expr mk p = (\<lambda>expr h. Inr (h(p \<mapsto> mk expr)))"

text \<open>\<open>parent.Alternatives[index] = expr\<close>: the slice is read when the closure is applied.\<close>

definition set_Alternatives :: "addr \<Rightarrow> nat \<Rightarrow> replacer_fn" where
  "set_Alternatives p index = (\<lambda>expr h.
     case h p of
       Some (ChoiceExpr alts) \<Rightarrow>
         if index < length alts then Inr (h(p \<mapsto> ChoiceExpr (alts[index := expr])))
         else Inl IndexOutOfRange
     | _ \<Rightarrow> Inl NilDereference)"

text \<open>\<open>parent.Exprs[index] = expr\<close>.\<close>

definition set_Exprs :: "addr \<Rightarrow> nat \<Rightarrow> replacer_fn" where
  "set_Exprs p index = (\<lambda>expr h.
     case h p of
       Some (SeqExpr exprs) \<Rightarrow>
         if index < length exprs then Inr (h(p \<mapsto> SeqExpr (exprs[index := expr])))
         else Inl IndexOutOfRange
     | _ \<Rightarrow> Inl NilDereference)"

text \<open>
  The type assertion \<open>expr.(*Rule)\<close>: the pointer if the dynamic type is \<open>*Rule\<close>, a panic
  otherwise (also for the nil interface).
\<close>

definition assert_Rule :: "heap \<Rightarrow> expression \<Rightarrow> fault + addr" where
  "assert_Rule h expr =
     (case expr of
        Nil \<Rightarrow> Inl TypeAssertion
      | Ref a \<Rightarrow> (case h a of Some (Rule _) \<Rightarrow> Inr a | _ \<Rightarrow> Inl TypeAssertion))"

text \<open>
  \<open>parent.Rules[index] = expr.(*Rule)\<close>: the right-hand side is evaluated first, then the
  element is assigned.
\<close>

definition set_Rules :: "addr \<Rightarrow> nat \<Rightarrow> replacer_fn" where
  "set_Rules p index = (\<lambda>expr h.
     case assert_Rule h expr of
       Inl f \<Rightarrow> Inl f
     | Inr r \<Rightarrow>
         (case h p of
            Some (Grammar rules) \<Rightarrow>
              if index < length rules then Inr (h(p \<mapsto> Grammar (rules[index := r])))
              else Inl IndexOutOfRange
          | _ \<Rightarrow> Inl NilDereference))"

text \<open>
  The switch on the type of \<open>parent0\<close>, evaluated on entry to \<open>walk0\<close> in the heap \<open>h0\<close>
  of that moment. A parent of a kind without a case leaves \<open>replacer\<close> nil; calling it
  panics.
\<close>

definition mk_replacer :: "heap \<Rightarrow> expression \<Rightarrow> nat \<Rightarrow> replacer_fn" where
  "mk_replacer h0 parent0 index =
     (case parent0 of
        Nil \<Rightarrow> (\<lambda>expr h. Inr h)
      | Ref p \<Rightarrow>
          (case h0 p of
             Some (ActionExpr _) \<Rightarrow> set_Expr ActionExpr p
           | Some (AndExpr _) \<Rightarrow> set_Expr AndExpr p
           | Some (ChoiceExpr _) \<Rightarrow> set_Alternatives p index
           | Some (Grammar _) \<Rightarrow> set_Rules p index
           | Some (LabeledExpr _) \<Rightarrow> set_Expr LabeledExpr p
           | Some (NotExpr _) \<Rightarrow> set_Expr NotExpr p
           | Some (OneOrMoreExpr _) \<Rightarrow> set_Expr OneOrMoreExpr p
           | Some (Rule _) \<Rightarrow> set_Expr Rule p
           | Some (SeqExpr _) \<Rightarrow> set_Exprs p index
           | Some (ZeroOrMoreExpr _) \<Rightarrow> set_Expr ZeroOrMoreExpr p
           | Some (ZeroOrOneExpr _) \<Rightarrow> set_Expr ZeroOrOneExpr p
           | _ \<Rightarrow> (\<lambda>expr h. Inl NilDereference)))"

subsection \<open>The range loops\<close>

text \<open>
  \<open>for i, e := range s\<close> evaluates \<open>s\<close> once, so the number of iterations is fixed when
  the loop starts, and reads element \<open>i\<close> at the start of iteration \<open>i\<close>. \<open>range_elem\<close> is
  that read, in the heap of that moment.
\<close>

definition range_elem :: "heap \<Rightarrow> addr \<Rightarrow> nat \<Rightarrow> expression option" where
  "range_elem h a i =
     (case h a of
        Some (ChoiceExpr alts) \<Rightarrow> if i < length alts then Some (alts ! i) else None
      | Some (Grammar rules) \<Rightarrow> if i < length rules then Some (Ref (rules ! i)) else None
      | Some (SeqExpr exprs) \<Rightarrow> if i < length exprs then Some (exprs ! i) else None
      | _ \<Rightarrow> None)"

fun range_loop :: "nat list \<Rightarrow> (nat \<Rightarrow> 'u world \<Rightarrow> 'u result) \<Rightarrow> 'u world \<Rightarrow> 'u result" where
  "range_loop [] body st = Some (Inr st)"
| "range_loop (i # is) body st =
     (case body i st of
        None \<Rightarrow> None
      | Some (Inl e) \<Rightarrow> Some (Inl e)
      | Some (Inr st') \<Rightarrow> range_loop is body st')"

subsection \<open>\<open>part_000\<close>: \<open>walk0\<close>, \<open>Walk\<close>, \<open>Inspect\<close>\<close>

text \<open>
  \<open>walk0\<close>: the replacer is built, \<open>v.Visit\<close> is called (and logged), a nil result returns,
  and otherwise the second type switch descends with the returned visitor. A child is read
  from the heap left by the visit call (\<open>expr.Expr\<close> is evaluated after \<open>Visit\<close> returns).
  Nothing follows the second switch. When the visitor panics, the panic carries the heap
  and the visitor state of the moment of the call.
\<close>

fun walk0 :: "nat \<Rightarrow> ('v, 'u) visitor \<Rightarrow> 'v \<Rightarrow> expression \<Rightarrow> expression \<Rightarrow> nat \<Rightarrow>
    'u world \<Rightarrow> 'u result" where
  "walk0 0 vis v expr parent0 index st = None"
| "walk0 (Suc n) vis v expr parent0 index st =
     (let br = \<lparr>parent = parent0, replacer = mk_replacer (hp st) parent0 index\<rparr>;
          log = visited st @ [expr]
      in case vis v expr br (hp st) (vst st) of
           Inl f \<Rightarrow> Some (Inl (f, st\<lparr>visited := log\<rparr>))
         | Inr (None, h, u) \<Rightarrow> Some (Inr \<lparr>hp = h, vst = u, visited = log\<rparr>)
         | Inr (Some w, h, u) \<Rightarrow>
             (let st2 = \<lparr>hp = h, vst = u, visited = log\<rparr>
              in case expr of
                   Nil \<Rightarrow> Some (Inl (UnknownExpressionType, st2))
                 | Ref a \<Rightarrow>
                     (case h a of
                        None \<Rightarrow> Some (Inl (NilDereference, st2))
                      | Some (ActionExpr e) \<Rightarrow> walk0 n vis w e expr 0 st2
                      | Some AndCodeExpr \<Rightarrow> Some (Inr st2)
                      | Some (AndExpr e) \<Rightarrow> walk0 n vis w e expr 0 st2
                      | Some AnyMatcher \<Rightarrow> Some (Inr st2)
                      | Some CharClassMatcher \<Rightarrow> Some (Inr st2)
                      | Some (ChoiceExpr alts) \<Rightarrow>
                          range_loop [0..<length alts]
                            (\<lambda>i s. case range_elem (hp s) a i of
                                     None \<Rightarrow> Some (Inl (IndexOutOfRange, s))
                                   | Some e \<Rightarrow> walk0 n vis w e expr i s) st2
                      | Some (Grammar rules) \<Rightarrow>
                          range_loop [0..<length rules]
                            (\<lambda>i s. case range_elem (hp s) a i of
                                     None \<Rightarrow> Some (Inl (IndexOutOfRange, s))
                                   | Some e \<Rightarrow> walk0 n vis w e expr i s) st2
                      | Some (LabeledExpr e) \<Rightarrow> walk0 n vis w e expr 0 st2
                      | Some LitMatcher \<Rightarrow> Some (Inr st2)
                      | Some NotCodeExpr \<Rightarrow> Some (Inr st2)
                      | Some (NotExpr e) \<Rightarrow> walk0 n vis w e expr 0 st2
                      | Some (OneOrMoreExpr e) \<Rightarrow> walk0 n vis w e expr 0 st2
                      | Some (Rule e) \<Rightarrow> walk0 n vis w e expr 0 st2
                      | Some RuleRefExpr \<Rightarrow> Some (Inr st2)
                      | Some (SeqExpr exprs) \<Rightarrow>
                          range_loop [0..<length exprs]
                            (\<lambda>i s. case range_elem (hp s) a i of
                                     None \<Rightarrow> Some (Inl (IndexOutOfRange, s))
                                   | Some e \<Rightarrow> walk0 n vis w e expr i s) st2
                      | Some StateCodeExpr \<Rightarrow> Some (Inr st2)
                      | Some (ZeroOrMoreExpr e) \<Rightarrow> walk0 n vis w e expr 0 st2
                      | Some (ZeroOrOneExpr e) \<Rightarrow> walk0 n vis w e expr 0 st2
                      | Some OtherExpr \<Rightarrow> Some (Inl (UnknownExpressionType, st2)))))"

definition Walk :: "nat \<Rightarrow> ('v, 'u) visitor \<Rightarrow> 'v \<Rightarrow> expression \<Rightarrow> 'u world \<Rightarrow> 'u result" where
  "Walk n vis v expr st = walk0 n vis v expr Nil 0 st"

text \<open>
  \<open>type inspector func(Expression) bool\<close>: the function is Go code as well, so it gets the
  heap and the caller's state. The visitor value of an inspector is the function itself:
  \<open>Visit\<close> returns \<open>f\<close> when \<open>f(expr)\<close> holds and nil otherwise, and never touches the
  back-reference.
\<close>

datatype 'u inspector =
  Inspector (call: "expression \<Rightarrow> heap \<Rightarrow> 'u \<Rightarrow> fault + (bool \<times> heap \<times> 'u)")

definition inspector_Visit :: "('u inspector, 'u) visitor" where
  "inspector_Visit f expr br h u =
     (case call f expr h u of
        Inl e \<Rightarrow> Inl e
      | Inr (b, h', u') \<Rightarrow> Inr (if b then Some f else None, h', u'))"

definition Inspect :: "nat \<Rightarrow> expression \<Rightarrow> 'u inspector \<Rightarrow> 'u world \<Rightarrow> 'u result" where
  "Inspect n expr f st = Walk n inspector_Visit f expr st"

subsection \<open>\<open>ast_walk.go\<close>: \<open>walkVisitor\<close>, \<open>walkReplacer\<close>, \<open>Walk\<close>, \<open>Inspect\<close>\<close>

text \<open>
  The \<open>Visit\<close> method of a \<open>Visitor\<close> gets the expression only; the \<open>VisitReplace\<close> method
  of a \<open>VisitReplacer\<close> gets the expression and the replacer.
\<close>

type_synonym ('v, 'u) visit_method =
  "'v \<Rightarrow> expression \<Rightarrow> heap \<Rightarrow> 'u \<Rightarrow> fault + ('v option \<times> heap \<times> 'u)"

type_synonym ('r, 'u) visit_replace_method =
  "'r \<Rightarrow> expression \<Rightarrow> replacer_fn \<Rightarrow> heap \<Rightarrow> 'u \<Rightarrow> fault + ('r option \<times> heap \<times> 'u)"

fun walkVisitor :: "nat \<Rightarrow> ('v, 'u) visit_method \<Rightarrow> 'v \<Rightarrow> expression \<Rightarrow> 'u world \<Rightarrow> 'u result" where
  "walkVisitor 0 vis v expr st = None"
| "walkVisitor (Suc n) vis v expr st =
     (let log = visited st @ [expr]
      in case vis v expr (hp st) (vst st) of
           Inl f \<Rightarrow> Some (Inl (f, st\<lparr>visited := log\<rparr>))
         | Inr (None, h, u) \<Rightarrow> Some (Inr \<lparr>hp = h, vst = u, visited = log\<rparr>)
         | Inr (Some w, h, u) \<Rightarrow>
             (let st2 = \<lparr>hp = h, vst = u, visited = log\<rparr>
              in case expr of
                   Nil \<Rightarrow> Some (Inl (UnknownExpressionType, st2))
                 | Ref a \<Rightarrow>
                     (case h a of
                        None \<Rightarrow> Some (Inl (NilDereference, st2))
                      | Some (ActionExpr e) \<Rightarrow> walkVisitor n vis w e st2
                      | Some AndCodeExpr \<Rightarrow> Some (Inr st2)
                      | Some (AndExpr e) \<Rightarrow> walkVisitor n vis w e st2
                      | Some AnyMatcher \<Rightarrow> Some (Inr st2)
                      | Some CharClassMatcher \<Rightarrow> Some (Inr st2)
                      | Some (ChoiceExpr alts) \<Rightarrow>
                          range_loop [0..<length alts]
                            (\<lambda>i s. case range_elem (hp s) a i of
                                     None \<Rightarrow> Some (Inl (IndexOutOfRange, s))
                                   | Some e \<Rightarrow> walkVisitor n vis w e s) st2
                      | Some (Grammar rules) \<Rightarrow>
                          range_loop [0..<length rules]
                            (\<lambda>i s. case range_elem (hp s) a i of
                                     None \<Rightarrow> Some (Inl (IndexOutOfRange, s))
                                   | Some e \<Rightarrow> walkVisitor n vis w e s) st2
                      | Some (LabeledExpr e) \<Rightarrow> walkVisitor n vis w e st2
                      | Some LitMatcher \<Rightarrow> Some (Inr st2)
                      | Some NotCodeExpr \<Rightarrow> Some (Inr st2)
                      | Some (NotExpr e) \<Rightarrow> walkVisitor n vis w e st2
                      | Some (OneOrMoreExpr e) \<Rightarrow> walkVisitor n vis w e st2
                      | Some (Rule e) \<Rightarrow> walkVisitor n vis w e st2
                      | Some RuleRefExpr \<Rightarrow> Some (Inr st2)
                      | Some (SeqExpr exprs) \<Rightarrow>
                          range_loop [0..<length exprs]
                            (\<lambda>i s. case range_elem (hp s) a i of
                                     None \<Rightarrow> Some (Inl (IndexOutOfRange, s))
                                   | Some e \<Rightarrow> walkVisitor n vis w e s) st2
                      | Some StateCodeExpr \<Rightarrow> Some (Inr st2)
                      | Some (ZeroOrMoreExpr e) \<Rightarrow> walkVisitor n vis w e st2
                      | Some (ZeroOrOneExpr e) \<Rightarrow> walkVisitor n vis w e st2
                      | Some OtherExpr \<Rightarrow> Some (Inl (UnknownExpressionType, st2)))))"

fun walkReplacer :: "nat \<Rightarrow> ('r, 'u) visit_replace_method \<Rightarrow> 'r \<Rightarrow> expression \<Rightarrow> expression \<Rightarrow>
    nat \<Rightarrow> 'u world \<Rightarrow> 'u result" where
  "walkReplacer 0 vis v expr parent0 index st = None"
| "walkReplacer (Suc n) vis v expr parent0 index st =
     (let replacer = mk_replacer (hp st) parent0 index;
          log = visited st @ [expr]
      in case vis v expr replacer (hp st) (vst st) of
           Inl f \<Rightarrow> Some (Inl (f, st\<lparr>visited := log\<rparr>))
         | Inr (None, h, u) \<Rightarrow> Some (Inr \<lparr>hp = h, vst = u, visited = log\<rparr>)
         | Inr (Some w, h, u) \<Rightarrow>
             (let st2 = \<lparr>hp = h, vst = u, visited = log\<rparr>
              in case expr of
                   Nil \<Rightarrow> Some (Inl (UnknownExpressionType, st2))
                 | Ref a \<Rightarrow>
                     (case h a of
                        None \<Rightarrow> Some (Inl (NilDereference, st2))
                      | Some (ActionExpr e) \<Rightarrow> walkReplacer n vis w e expr 0 st2
                      | Some AndCodeExpr \<Rightarrow> Some (Inr st2)
                      | Some (AndExpr e) \<Rightarrow> walkReplacer n vis w e expr 0 st2
                      | Some AnyMatcher \<Rightarrow> Some (Inr st2)
                      | Some CharClassMatcher \<Rightarrow> Some (Inr st2)
                      | Some (ChoiceExpr alts) \<Rightarrow>
                          range_loop [0..<length alts]
                            (\<lambda>i s. case range_elem (hp s) a i of
                                     None \<Rightarrow> Some (Inl (IndexOutOfRange, s))
                                   | Some e \<Rightarrow> walkReplacer n vis w e expr i s) st2
                      | Some (Grammar rules) \<Rightarrow>
                          range_loop [0..<length rules]
                            (\<lambda>i s. case range_elem (hp s) a i of
                                     None \<Rightarrow> Some (Inl (IndexOutOfRange, s))
                                   | Some e \<Rightarrow> walkReplacer n vis w e expr i s) st2
                      | Some (LabeledExpr e) \<Rightarrow> walkReplacer n vis w e expr 0 st2
                      | Some LitMatcher \<Rightarrow> Some (Inr st2)
                      | Some NotCodeExpr \<Rightarrow> Some (Inr st2)
                      | Some (NotExpr e) \<Rightarrow> walkReplacer n vis w e expr 0 st2
                      | Some (OneOrMoreExpr e) \<Rightarrow> walkReplacer n vis w e expr 0 st2
                      | Some (Rule e) \<Rightarrow> walkReplacer n vis w e expr 0 st2
                      | Some RuleRefExpr \<Rightarrow> Some (Inr st2)
                      | Some (SeqExpr exprs) \<Rightarrow>
                          range_loop [0..<length exprs]
                            (\<lambda>i s. case range_elem (hp s) a i of
                                     None \<Rightarrow> Some (Inl (IndexOutOfRange, s))
                                   | Some e \<Rightarrow> walkReplacer n vis w e expr i s) st2
                      | Some StateCodeExpr \<Rightarrow> Some (Inr st2)
                      | Some (ZeroOrMoreExpr e) \<Rightarrow> walkReplacer n vis w e expr 0 st2
                      | Some (ZeroOrOneExpr e) \<Rightarrow> walkReplacer n vis w e expr 0 st2
                      | Some OtherExpr \<Rightarrow> Some (Inl (UnknownExpressionType, st2)))))"

text \<open>
  \<open>Walk\<close> of \<open>ast_walk.go\<close>. The type assertion \<open>v.(VisitReplacer)\<close> is the function
  \<open>upgrade\<close>: the visitor seen as a \<open>VisitReplacer\<close>, when its type has that method.
\<close>

definition Walk_VR :: "nat \<Rightarrow> ('v, 'u) visit_method \<Rightarrow> ('r, 'u) visit_replace_method \<Rightarrow>
    ('v \<Rightarrow> 'r option) \<Rightarrow> 'v \<Rightarrow> expression \<Rightarrow> 'u world \<Rightarrow> 'u result" where
  "Walk_VR n Visit VisitReplace upgrade v expr st =
     (case upgrade v of
        Some visitReplacer \<Rightarrow> walkReplacer n VisitReplace visitReplacer expr Nil 0 st
      | None \<Rightarrow> walkVisitor n Visit v expr st)"

text \<open>The inspector of \<open>ast_walk.go\<close> has the method \<open>Visit\<close> only, so it is never upgraded.\<close>

definition inspector_Visit_VR :: "('u inspector, 'u) visit_method" where
  "inspector_Visit_VR f expr h u =
     (case call f expr h u of
        Inl e \<Rightarrow> Inl e
      | Inr (b, h', u') \<Rightarrow> Inr (if b then Some f else None, h', u'))"

definition no_VisitReplace :: "(unit, 'u) visit_replace_method" where
  "no_VisitReplace r expr rep h u = Inl NilDereference"

definition Inspect_VR :: "nat \<Rightarrow> expression \<Rightarrow> 'u inspector \<Rightarrow> 'u world \<Rightarrow> 'u result" where
  "Inspect_VR n expr f st =
     Walk_VR n inspector_Visit_VR no_VisitReplace (\<lambda>v. None) f expr st"

subsection \<open>Visitors used in the statements\<close>

text \<open>
  The visitor "continue iff \<open>p(node)\<close>" for a pure predicate \<open>p\<close> (it may read the node in
  the heap): it never panics, writes nothing and ignores the back-reference.
\<close>

definition continue_iff :: "(expression \<Rightarrow> heap \<Rightarrow> bool) \<Rightarrow> (unit, 'u) visitor" where
  "continue_iff p v expr br h u = Inr (if p expr h then Some () else None, h, u)"

text \<open>A pure predicate as the function handed to \<open>Inspect\<close>.\<close>

definition pure_inspector :: "(expression \<Rightarrow> heap \<Rightarrow> bool) \<Rightarrow> 'u inspector" where
  "pure_inspector p = Inspector (\<lambda>expr h u. Inr (p expr h, h, u))"

text \<open>
  A visitor \<open>decides\<close> by \<open>p\<close> when each call returns normally, leaves the heap as it is, and
  continues exactly where \<open>p\<close> holds; its own state and the visitor it returns are free.
  A visitor is \<open>heap_preserving\<close> when no call of it changes the heap.
\<close>

definition decides :: "('v, 'u) visitor \<Rightarrow> (expression \<Rightarrow> heap \<Rightarrow> bool) \<Rightarrow> bool" where
  "decides vis p =
     (\<forall>v expr br h u. \<exists>w u'. vis v expr br h u = Inr (if p expr h then Some w else None, h, u'))"

definition heap_preserving :: "('v, 'u) visitor \<Rightarrow> bool" where
  "heap_preserving vis =
     (\<forall>v expr br h u w h' u'. vis v expr br h u = Inr (w, h', u') \<longrightarrow> h' = h)"

text \<open>The state in which a call ended, whether it returned or panicked.\<close>

definition final :: "(fault \<times> 'u world) + 'u world \<Rightarrow> 'u world" where
  "final r = (case r of Inl (f, s) \<Rightarrow> s | Inr s \<Rightarrow> s)"

subsection \<open>Trees, as the specification describes them\<close>

text \<open>
  The specification speaks of a strict tree. \<open>Tree a ts\<close> is the node at address \<open>a\<close> with
  the subtrees \<open>ts\<close> of its children, in the declared order. \<open>children\<close> is the table of
  the data model: the child slots of each kind, in order. \<open>repr h t\<close> says that the heap \<open>h\<close>
  holds the tree \<open>t\<close>, all of whose nodes are of a kind of the taxonomy.
\<close>

datatype tree = Tree addr "tree list"

fun root_of :: "tree \<Rightarrow> expression" where
  "root_of (Tree a ts) = Ref a"

fun children :: "node \<Rightarrow> expression list" where
  "children (ActionExpr e) = [e]"
| "children (AndExpr e) = [e]"
| "children (ChoiceExpr alts) = alts"
| "children (Grammar rules) = map Ref rules"
| "children (LabeledExpr e) = [e]"
| "children (NotExpr e) = [e]"
| "children (OneOrMoreExpr e) = [e]"
| "children (Rule e) = [e]"
| "children (SeqExpr exprs) = exprs"
| "children (ZeroOrMoreExpr e) = [e]"
| "children (ZeroOrOneExpr e) = [e]"
| "children _ = []"

fun holds_slice :: "node \<Rightarrow> bool" where
  "holds_slice (ChoiceExpr _) = True"
| "holds_slice (Grammar _) = True"
| "holds_slice (SeqExpr _) = True"
| "holds_slice _ = False"

fun known :: "node \<Rightarrow> bool" where
  "known OtherExpr = False"
| "known _ = True"

fun repr :: "heap \<Rightarrow> tree \<Rightarrow> bool" where
  "repr h (Tree a ts) =
     (case h a of
        None \<Rightarrow> False
      | Some nd \<Rightarrow> known nd \<and> children nd = map root_of ts \<and> (\<forall>t \<in> set ts. repr h t))"

text \<open>Pre-order: a node, then the pre-orders of its children from first to last.\<close>

fun pre_order :: "tree \<Rightarrow> expression list" where
  "pre_order (Tree a ts) = Ref a # concat (map pre_order ts)"

text \<open>Pre-order with pruning: the children of a node follow it only where \<open>q\<close> holds of it.\<close>

fun pruned_pre_order :: "(expression \<Rightarrow> bool) \<Rightarrow> tree \<Rightarrow> expression list" where
  "pruned_pre_order q (Tree a ts) =
     Ref a # (if q (Ref a) then concat (map (pruned_pre_order q) ts) else [])"

text \<open>The children and deeper descendants of the node at address \<open>a\<close>.\<close>

fun below :: "addr \<Rightarrow> tree \<Rightarrow> expression list" where
  "below a (Tree b ts) =
     (if a = b then concat (map pre_order ts) else concat (map (below a) ts))"

fun height :: "tree \<Rightarrow> nat" where
  "height (Tree a ts) = Suc (foldr max (map height ts) 0)"

subsection \<open>More visitors\<close>

text \<open>The visitor of a full walk: it continues everywhere.\<close>

definition always_continue :: "(unit, 'u) visitor" where
  "always_continue = continue_iff (\<lambda>expr h. True)"


text \<open>
  A visitor of \<open>ast_walk.go\<close> seen as a visitor of \<open>part_000\<close>: a \<open>Visit\<close> method ignores
  the back-reference, a \<open>VisitReplace\<close> method takes the replacer out of it.
\<close>

definition ignoring_Backref :: "('v, 'u) visit_method \<Rightarrow> ('v, 'u) visitor" where
  "ignoring_Backref Visit v expr br = Visit v expr"

definition via_Backref :: "('r, 'u) visit_replace_method \<Rightarrow> ('r, 'u) visitor" where
  "via_Backref VisitReplace r expr br = VisitReplace r expr (replacer br)"

text \<open>Calling a replacer once for each expression of a list, in order.\<close>

fun apply_all :: "replacer_fn \<Rightarrow> expression list \<Rightarrow> heap \<Rightarrow> fault + heap" where
  "apply_all r [] h = Inr h"
| "apply_all r (x # xs) h =
     (case r x h of Inl f \<Rightarrow> Inl f | Inr h' \<Rightarrow> apply_all r xs h')"

text \<open>
  The visitor \<open>vis\<close>, extended so that at a node without parent it first calls the replacer
  it is handed with each of \<open>xs\<close>.
\<close>

definition writing_at_root :: "expression list \<Rightarrow> ('v, 'u) visitor \<Rightarrow> ('v, 'u) visitor" where
  "writing_at_root xs vis v expr br h u =
     (if parent br = Nil
      then (case apply_all (replacer br) xs h of
              Inl f \<Rightarrow> Inl f
            | Inr h' \<Rightarrow> vis v expr br h' u)
      else vis v expr br h u)"

text \<open>
  The visitor that replaces every \<open>LitMatcher\<close> it visits by the node at address \<open>d\<close>,
  through the replacer it is handed with the \<open>LitMatcher\<close>, and continues everywhere.
\<close>

definition replace_LitMatcher :: "addr \<Rightarrow> (unit, 'u) visitor" where
  "replace_LitMatcher d v expr br h u =
     (case expr of
        Nil \<Rightarrow> Inr (Some (), h, u)
      | Ref a \<Rightarrow>
          (case h a of
             Some LitMatcher \<Rightarrow>
               (case replacer br (Ref d) h of
                  Inl f \<Rightarrow> Inl f
                | Inr h' \<Rightarrow> Inr (Some (), h', u))
           | _ \<Rightarrow> Inr (Some (), h, u)))"

text \<open>
  The visitor that, when it visits the \<open>OneOrMoreExpr\<close> at address \<open>p\<close>, assigns the node
  at address \<open>d\<close> to its field \<open>Expr\<close> (a direct write, not through a replacer), and
  continues everywhere.
\<close>

definition assign_Expr_of :: "addr \<Rightarrow> addr \<Rightarrow> (unit, 'u) visitor" where
  "assign_Expr_of p d v expr br h u =
     (if expr = Ref p
      then (case h p of
              Some (OneOrMoreExpr _) \<Rightarrow> Inr (Some (), h(p \<mapsto> OneOrMoreExpr (Ref d)), u)
            | _ \<Rightarrow> Inr (Some (), h, u))
      else Inr (Some (), h, u))"

text \<open>
  The visitor that, when it visits the node at address \<open>a\<close>, calls the replacer it is
  handed with \<open>x\<close>, and continues everywhere.
\<close>

definition replace_at :: "addr \<Rightarrow> expression \<Rightarrow> (unit, 'u) visitor" where
  "replace_at a x v expr br h u =
     (if expr = Ref a
      then (case replacer br x h of
              Inl f \<Rightarrow> Inl f
            | Inr h' \<Rightarrow> Inr (Some (), h', u))
      else Inr (Some (), h, u))"

text \<open>The predicate "any node but the one at address \<open>a\<close>".\<close>

definition not_node :: "addr \<Rightarrow> expression \<Rightarrow> heap \<Rightarrow> bool" where
  "not_node a expr h = (expr \<noteq> Ref a)"

text \<open>
  Two visitors of \<open>ast_walk.go\<close>: a \<open>Visit\<close> method that continues everywhere, and a
  \<open>VisitReplace\<close> method that replaces every \<open>LitMatcher\<close> by the node at address \<open>d\<close>.
\<close>

definition always_Visit :: "(unit, 'u) visit_method" where
  "always_Visit v expr h u = Inr (Some (), h, u)"

definition VisitReplace_LitMatcher :: "addr \<Rightarrow> (unit, 'u) visit_replace_method" where
  "VisitReplace_LitMatcher d r expr rep h u =
     (case expr of
        Nil \<Rightarrow> Inr (Some (), h, u)
      | Ref a \<Rightarrow>
          (case h a of
             Some LitMatcher \<Rightarrow>
               (case rep (Ref d) h of
                  Inl f \<Rightarrow> Inl f
                | Inr h' \<Rightarrow> Inr (Some (), h', u))
           | _ \<Rightarrow> Inr (Some (), h, u)))"


subsection \<open>Kinds of expressions\<close>

text \<open>
  \<open>is_Rule\<close>: the expression is Rule-kind. \<open>outside_taxonomy\<close>: the second type switch has
  no case for the expression, which is so for the nil interface and for a node of a type
  that the switch does not list.
\<close>

definition is_Rule :: "heap \<Rightarrow> expression \<Rightarrow> bool" where
  "is_Rule h expr =
     (case expr of
        Nil \<Rightarrow> False
      | Ref a \<Rightarrow> (case h a of Some (Rule _) \<Rightarrow> True | _ \<Rightarrow> False))"


subsection \<open>Walks that end in the panic of the default branch\<close>





text \<open>
  A visitor that never calls the replacer it is handed (and never looks at the parent):
  what it does is the same for every back-reference.
\<close>

definition ignores_Backref :: "('v, 'u) visitor \<Rightarrow> bool" where
  "ignores_Backref vis = (\<forall>v expr br br' h u. vis v expr br h u = vis v expr br' h u)"

subsection \<open>Example trees\<close>

text \<open>A \<open>OneOrMoreExpr\<close> over a \<open>LitMatcher\<close>, and a \<open>CharClassMatcher\<close> outside the tree.\<close>

definition heap_OneOrMore :: heap where
  "heap_OneOrMore = [0 \<mapsto> OneOrMoreExpr (Ref 1), 1 \<mapsto> LitMatcher, 2 \<mapsto> CharClassMatcher]"



text \<open>
  A grammar with one rule, whose expression is a choice of a literal, a sequence of two
  and a repetition; the nodes at 9 and 10 are outside the tree.
\<close>

definition heap_Grammar :: heap where
  "heap_Grammar =
     [0 \<mapsto> Grammar [1],
      1 \<mapsto> Rule (Ref 2),
      2 \<mapsto> ChoiceExpr [Ref 3, Ref 4, Ref 5],
      3 \<mapsto> LitMatcher,
      4 \<mapsto> SeqExpr [Ref 6, Ref 7],
      5 \<mapsto> OneOrMoreExpr (Ref 8),
      6 \<mapsto> CharClassMatcher,
      7 \<mapsto> RuleRefExpr,
      8 \<mapsto> AnyMatcher,
      9 \<mapsto> Rule (Ref 10),
      10 \<mapsto> LitMatcher]"

definition tree_Grammar :: tree where
  "tree_Grammar =
     Tree 0 [Tree 1 [Tree 2 [Tree 3 [], Tree 4 [Tree 6 [], Tree 7 []], Tree 5 [Tree 8 []]]]]"

definition start :: "heap \<Rightarrow> unit world" where
  "start h = \<lparr>hp = h, vst = (), visited = []\<rparr>"

section \<open>Properties\<close>

subsection \<open>The range loop and one step of \<open>walk0\<close>\<close>

lemma range_loop_append:
  "range_loop (xs @ ys) body st =
     (case range_loop xs body st of
        None \<Rightarrow> None
      | Some (Inl e) \<Rightarrow> Some (Inl e)
      | Some (Inr s) \<Rightarrow> range_loop ys body s)"
  by (induction xs arbitrary: st) (auto split: option.splits sum.splits)

lemma range_loop_inv:
  assumes "\<And>i s r. I s \<Longrightarrow> body i s = Some r \<Longrightarrow> I (final r)"
    and "I st" and "range_loop is body st = Some r"
  shows "I (final r)"
  using assms(2,3)
proof (induction "is" arbitrary: st)
  case Nil
  then show ?case by (auto simp: final_def)
next
  case (Cons i "is")
  show ?case
  proof (cases "body i st")
    case None
    with Cons.prems show ?thesis by simp
  next
    case (Some r')
    show ?thesis
    proof (cases r')
      case (Inl e)
      with Some Cons.prems have "r = r'" by simp
      with assms(1)[OF Cons.prems(1) Some] show ?thesis by simp
    next
      case (Inr s')
      with assms(1)[OF Cons.prems(1) Some] have "I s'" by (simp add: final_def)
      moreover from Some Inr Cons.prems have "range_loop is body s' = Some r" by simp
      ultimately show ?thesis by (rule Cons.IH)
    qed
  qed
qed

lemma height_child: "t \<in> set ts \<Longrightarrow> height t \<le> foldr max (map height ts) 0"
  by (induction ts) auto

lemma range_elem_children:
  "h a = Some nd \<Longrightarrow> holds_slice nd \<Longrightarrow> i < length (children nd) \<Longrightarrow>
   range_elem h a i = Some (children nd ! i)"
  by (cases nd) (simp_all add: range_elem_def)

lemma children_single:
  "\<not> holds_slice nd \<Longrightarrow> children nd = [] \<or> (\<exists>e. children nd = [e])"
  by (cases nd) simp_all

lemma walk0_pruned:
  "vis v expr \<lparr>parent = parent0, replacer = mk_replacer (hp st) parent0 index\<rparr> (hp st) (vst st)
     = Inr (None, h, u) \<Longrightarrow>
   walk0 (Suc n) vis v expr parent0 index st =
     Some (Inr \<lparr>hp = h, vst = u, visited = visited st @ [expr]\<rparr>)"
  by simp

lemma walk0_leaf:
  "vis v (Ref a) \<lparr>parent = parent0, replacer = mk_replacer (hp st) parent0 index\<rparr> (hp st) (vst st)
     = Inr (Some w, h, u) \<Longrightarrow> h a = Some nd \<Longrightarrow> known nd \<Longrightarrow> children nd = [] \<Longrightarrow>
   \<not> holds_slice nd \<Longrightarrow>
   walk0 (Suc n) vis v (Ref a) parent0 index st =
     Some (Inr \<lparr>hp = h, vst = u, visited = visited st @ [Ref a]\<rparr>)"
  by (cases nd) simp_all

lemma walk0_single:
  "vis v (Ref a) \<lparr>parent = parent0, replacer = mk_replacer (hp st) parent0 index\<rparr> (hp st) (vst st)
     = Inr (Some w, h, u) \<Longrightarrow> h a = Some nd \<Longrightarrow> children nd = [e] \<Longrightarrow>
   \<not> holds_slice nd \<Longrightarrow>
   walk0 (Suc n) vis v (Ref a) parent0 index st =
     walk0 n vis w e (Ref a) 0 \<lparr>hp = h, vst = u, visited = visited st @ [Ref a]\<rparr>"
  by (cases nd) simp_all

lemma walk0_slice:
  "vis v (Ref a) \<lparr>parent = parent0, replacer = mk_replacer (hp st) parent0 index\<rparr> (hp st) (vst st)
     = Inr (Some w, h, u) \<Longrightarrow> h a = Some nd \<Longrightarrow> holds_slice nd \<Longrightarrow>
   walk0 (Suc n) vis v (Ref a) parent0 index st =
     range_loop [0..<length (children nd)]
       (\<lambda>i s. case range_elem (hp s) a i of
                None \<Rightarrow> Some (Inl (IndexOutOfRange, s))
              | Some e \<Rightarrow> walk0 n vis w e (Ref a) i s)
       \<lparr>hp = h, vst = u, visited = visited st @ [Ref a]\<rparr>"
  by (cases nd) simp_all



declare walk0.simps [simp del]

lemma walk0_frame:
  assumes hp: "heap_preserving vis"
  shows "walk0 n vis v expr parent0 index st = Some r \<Longrightarrow> hp (final r) = hp st"
proof (induction n arbitrary: v expr parent0 index st r)
  case 0
  then show ?case by (simp add: walk0.simps)
next
  case (Suc n)
  let ?br = "\<lparr>parent = parent0, replacer = mk_replacer (hp st) parent0 index\<rparr>"
  show ?case
  proof (cases "vis v expr ?br (hp st) (vst st)")
    case (Inl f)
    with Suc.prems show ?thesis by (auto simp: final_def walk0.simps Let_def)
  next
    case (Inr res)
    obtain w h u where res: "res = (w, h, u)" by (cases res) auto
    with Inr hp have h: "h = hp st" unfolding heap_preserving_def by blast
    show ?thesis
    proof (cases w)
      case None
      with Inr res Suc.prems h show ?thesis by (auto simp: final_def walk0.simps)
    next
      case (Some w')
      let ?st2 = "\<lparr>hp = h, vst = u, visited = visited st @ [expr]\<rparr>"
      have vis: "vis v expr ?br (hp st) (vst st) = Inr (Some w', h, u)"
        using Inr res Some by simp
      show ?thesis
      proof (cases expr)
        case Nil
        with vis Suc.prems h show ?thesis by (auto simp: final_def walk0.simps)
      next
        case (Ref a)
        show ?thesis
        proof (cases "h a")
          case None
          with vis Ref Suc.prems h show ?thesis by (auto simp: final_def walk0.simps)
        next
          case (Some nd)
          consider (unk) "nd = OtherExpr" | (slice) "holds_slice nd"
            | (leaf) "known nd" "\<not> holds_slice nd" "children nd = []"
            | (single) e where "\<not> holds_slice nd" "children nd = [e]"
            by (cases nd) auto
          then show ?thesis
          proof cases
            case unk
            with vis Ref Some Suc.prems h show ?thesis by (auto simp: final_def walk0.simps)
          next
            case slice
            let ?body = "\<lambda>i s. case range_elem (hp s) a i of
                None \<Rightarrow> Some (Inl (IndexOutOfRange, s))
              | Some e \<Rightarrow> walk0 n vis w' e (Ref a) i s"
            have "range_loop [0..<length (children nd)] ?body ?st2 = Some r"
              using walk0_slice[where vis=vis and v=v and st=st and ?parent0.0=parent0 and index=index and n=n, OF vis[unfolded Ref] Some slice] Suc.prems Ref by simp
            moreover have "\<And>i s r. hp s = hp st \<Longrightarrow> ?body i s = Some r \<Longrightarrow> hp (final r) = hp st"
              by (auto split: option.splits simp: final_def dest: Suc.IH)
            moreover have "hp ?st2 = hp st" using h by simp
            ultimately show ?thesis
              using range_loop_inv[where I="\<lambda>s. hp s = hp st" and body="?body"] by blast
          next
            case leaf
            with walk0_leaf[where vis=vis and v=v and st=st and ?parent0.0=parent0 and index=index and n=n, OF vis[unfolded Ref] Some] Suc.prems Ref h
            show ?thesis by (auto simp: final_def)
          next
            case single
            with walk0_single[where vis=vis and v=v and st=st and ?parent0.0=parent0 and index=index and n=n and e=e, OF vis[unfolded Ref] Some] Suc.prems Ref
            have "walk0 n vis w' e (Ref a) 0 ?st2 = Some r" by simp
            from Suc.IH[OF this] h show ?thesis by simp
          qed
        qed
      qed
    qed
  qed
qed

subsection \<open>Walks of a tree by a visitor that decides by a predicate\<close>

lemma range_loop_children:
  assumes step: "\<And>i s. i < length ts \<Longrightarrow> hp s = h \<Longrightarrow>
      \<exists>u'. body i s = Some (Inr \<lparr>hp = h, vst = u', visited = visited s @ F (ts ! i)\<rparr>)"
    and k: "k \<le> length ts" and st: "hp st = h"
  shows "\<exists>u'. range_loop [0..<k] body st =
      Some (Inr \<lparr>hp = h, vst = u', visited = visited st @ concat (map F (take k ts))\<rparr>)"
  using k
proof (induction k)
  case 0
  have "st = \<lparr>hp = h, vst = vst st, visited = visited st @ []\<rparr>" using st by simp
  then have "range_loop [0..<0] body st =
      Some (Inr \<lparr>hp = h, vst = vst st, visited = visited st @ concat (map F (take 0 ts))\<rparr>)"
    by simp
  then show ?case by blast
next
  case (Suc k)
  then obtain u1 where l: "range_loop [0..<k] body st =
      Some (Inr \<lparr>hp = h, vst = u1, visited = visited st @ concat (map F (take k ts))\<rparr>)"
    by auto
  let ?s1 = "\<lparr>hp = h, vst = u1, visited = visited st @ concat (map F (take k ts))\<rparr>"
  from Suc.prems have klt: "k < length ts" by simp
  have "hp ?s1 = h" by simp
  from step[OF klt this] obtain u2 where
    b: "body k ?s1 = Some (Inr \<lparr>hp = h, vst = u2, visited = visited ?s1 @ F (ts ! k)\<rparr>)"
    by blast
  have "range_loop [0..<Suc k] body st =
      Some (Inr \<lparr>hp = h, vst = u2, visited = visited st @ concat (map F (take (Suc k) ts))\<rparr>)"
    using l b klt by (simp add: range_loop_append take_Suc_conv_app_nth)
  then show ?case by blast
qed

lemma walk0_decides:
  assumes d: "decides vis p"
  shows "repr h t \<Longrightarrow> height t \<le> n \<Longrightarrow> hp st = h \<Longrightarrow>
    \<exists>u'. walk0 n vis v (root_of t) parent0 index st =
      Some (Inr \<lparr>hp = h, vst = u', visited = visited st @ pruned_pre_order (\<lambda>e. p e h) t\<rparr>)"
proof (induction t arbitrary: n st v parent0 index)
  case (Tree a ts)
  let ?P = "pruned_pre_order (\<lambda>e. p e h)"
  from Tree.prems(2) obtain m where n: "n = Suc m" and m: "foldr max (map height ts) 0 \<le> m"
    by (cases n) auto
  let ?br = "\<lparr>parent = parent0, replacer = mk_replacer (hp st) parent0 index\<rparr>"
  from d obtain w u where
    vis: "vis v (Ref a) ?br (hp st) (vst st) = Inr (if p (Ref a) (hp st) then Some w else None, hp st, u)"
    unfolding decides_def by blast
  let ?st2 = "\<lparr>hp = hp st, vst = u, visited = visited st @ [Ref a]\<rparr>"
  have hst2: "hp ?st2 = h" using Tree.prems(3) by simp
  show ?case
  proof (cases "p (Ref a) h")
    case False
    with vis Tree.prems(3) have "vis v (Ref a) ?br (hp st) (vst st) = Inr (None, hp st, u)" by simp
    from walk0_pruned[where vis=vis and v=v and st=st and ?parent0.0=parent0 and index=index, OF this, of m]
    show ?thesis using False n Tree.prems(3) by auto
  next
    case True
    with vis Tree.prems(3) have vis': "vis v (Ref a) ?br (hp st) (vst st) = Inr (Some w, hp st, u)"
      by simp
    from Tree.prems(1,3) obtain nd where nd: "hp st a = Some nd" and kn: "known nd"
      and ch: "children nd = map root_of ts" and sub: "\<And>t. t \<in> set ts \<Longrightarrow> repr h t"
      by (auto split: option.splits)
    have IH: "\<exists>u'. walk0 m vis w (root_of t) (Ref a) i s =
          Some (Inr \<lparr>hp = h, vst = u', visited = visited s @ ?P t\<rparr>)"
      if t: "t \<in> set ts" and s: "hp s = h" for t s i
    proof -
      have "height t \<le> m" using height_child[OF t] m by simp
      from Tree.IH[OF t sub[OF t] this s] show ?thesis .
    qed
    show ?thesis
    proof (cases "holds_slice nd")
      case True
      let ?body = "\<lambda>i s. case range_elem (hp s) a i of
                None \<Rightarrow> Some (Inl (IndexOutOfRange, s))
              | Some e \<Rightarrow> walk0 m vis w e (Ref a) i s"
      have step: "\<exists>u'. ?body i s = Some (Inr \<lparr>hp = h, vst = u', visited = visited s @ ?P (ts ! i)\<rparr>)"
        if i: "i < length ts" and s: "hp s = h" for i s
      proof -
        have "range_elem (hp s) a i = Some (root_of (ts ! i))"
          using range_elem_children[of "hp s" a nd i] nd True ch i s Tree.prems(3) by simp
        then show ?thesis
          using IH[of "ts ! i" s i] i s by simp
      qed
      from range_loop_children[where body="?body" and F="?P" and ts=ts, OF step order_refl hst2]
      obtain u' where "range_loop [0..<length ts] ?body ?st2 =
        Some (Inr \<lparr>hp = h, vst = u', visited = visited ?st2 @ concat (map ?P ts)\<rparr>)"
        by auto
      then show ?thesis
        using walk0_slice[where vis=vis and v=v and st=st and ?parent0.0=parent0 and index=index and n=m, OF vis' nd True]
          n ch \<open>p (Ref a) h\<close> by auto
    next
      case False
      from children_single[OF False] show ?thesis
      proof
        assume e: "children nd = []"
        with ch have "ts = []" by simp
        with walk0_leaf[where vis=vis and v=v and st=st and ?parent0.0=parent0 and index=index and n=m, OF vis' nd kn e False]
        show ?thesis using n \<open>p (Ref a) h\<close> Tree.prems(3) by auto
      next
        assume "\<exists>e. children nd = [e]"
        then obtain e where e: "children nd = [e]" by blast
        with ch obtain t1 where ts: "ts = [t1]" and r: "root_of t1 = e" by (cases ts) auto
        from IH[of t1 ?st2 0] ts hst2 obtain u' where
          "walk0 m vis w (root_of t1) (Ref a) 0 ?st2 =
             Some (Inr \<lparr>hp = h, vst = u', visited = visited ?st2 @ ?P t1\<rparr>)"
          by auto
        with walk0_single[where vis=vis and v=v and st=st and ?parent0.0=parent0 and index=index and n=m, OF vis' nd e False]
        show ?thesis using n ts r \<open>p (Ref a) h\<close> by auto
      qed
    qed
  qed
qed

subsection \<open>The walkers of \<open>ast_walk.go\<close> are \<open>walk0\<close>\<close>

declare walkVisitor.simps [simp del] walkReplacer.simps [simp del]

lemma walkVisitor_walk0:
  "walkVisitor n Visit v expr st = walk0 n (ignoring_Backref Visit) v expr parent0 index st"
proof (induction n arbitrary: v expr st parent0 index)
  case 0
  show ?case by (simp add: walk0.simps walkVisitor.simps)
next
  case (Suc n)
  have IH: "\<And>v expr st parent0 index.
      walk0 n (ignoring_Backref Visit) v expr parent0 index st = walkVisitor n Visit v expr st"
    using Suc.IH by simp
  show ?case
    by (simp add: walk0.simps walkVisitor.simps IH Let_def
        cong: node.case_cong option.case_cong sum.case_cong expression.case_cong prod.case_cong)
      (simp add: ignoring_Backref_def)
qed

lemma walkReplacer_walk0:
  "walkReplacer n VisitReplace r expr parent0 index st =
     walk0 n (via_Backref VisitReplace) r expr parent0 index st"
proof (induction n arbitrary: r expr st parent0 index)
  case 0
  show ?case by (simp add: walk0.simps walkReplacer.simps)
next
  case (Suc n)
  have IH: "\<And>r expr st parent0 index.
      walk0 n (via_Backref VisitReplace) r expr parent0 index st =
        walkReplacer n VisitReplace r expr parent0 index st"
    using Suc.IH by simp
  show ?case
    by (simp add: walk0.simps walkReplacer.simps IH Let_def
        cong: node.case_cong option.case_cong sum.case_cong expression.case_cong prod.case_cong)
      (simp add: via_Backref_def)
qed

subsection \<open>Inspectors, and replacers at the root\<close>

lemma inspector_Visit_pure:
  "inspector_Visit (pure_inspector p) expr br h u =
     Inr (if p expr h then Some (pure_inspector p) else None, h, u)"
  by (simp add: inspector_Visit_def pure_inspector_def)

lemma inspector_Visit_VR_eq: "ignoring_Backref inspector_Visit_VR = inspector_Visit"
  by (intro ext) (simp add: ignoring_Backref_def inspector_Visit_VR_def inspector_Visit_def)

lemma walk0_inspector:
  "walk0 n inspector_Visit (pure_inspector p) expr parent0 index st =
     walk0 n (continue_iff p) () expr parent0 index st"
proof (induction n arbitrary: expr parent0 index st)
  case 0
  show ?case by (simp add: walk0.simps)
next
  case (Suc n)
  show ?case
    by (cases "p expr (hp st)")
      (simp_all add: walk0.simps inspector_Visit_pure continue_iff_def Suc.IH Let_def
        cong: node.case_cong option.case_cong expression.case_cong)
qed

lemma heap_preserving_continue_iff: "heap_preserving (continue_iff p)"
  by (simp add: heap_preserving_def continue_iff_def)

lemma apply_all_root: "apply_all (mk_replacer h0 Nil index) xs h = Inr h"
  by (induction xs) (simp_all add: mk_replacer_def)

lemma writing_at_root_Ref:
  "writing_at_root xs vis v expr \<lparr>parent = Ref p, replacer = r\<rparr> h u =
     vis v expr \<lparr>parent = Ref p, replacer = r\<rparr> h u"
  by (simp add: writing_at_root_def)

lemma writing_at_root_Nil:
  "writing_at_root xs vis v expr \<lparr>parent = Nil, replacer = mk_replacer h0 Nil index\<rparr> h u =
     vis v expr \<lparr>parent = Nil, replacer = mk_replacer h0 Nil index\<rparr> h u"
  by (simp add: writing_at_root_def apply_all_root)

lemma walk0_writing_at_root_below:
  "walk0 n (writing_at_root xs vis) v expr (Ref p) index st = walk0 n vis v expr (Ref p) index st"
proof (induction n arbitrary: v expr p index st)
  case 0
  show ?case by (simp add: walk0.simps)
next
  case (Suc n)
  show ?case
    by (cases expr)
      (simp_all add: walk0.simps writing_at_root_Ref Suc.IH Let_def
        cong: node.case_cong option.case_cong expression.case_cong sum.case_cong prod.case_cong)
qed

subsection \<open>Where a walk aborts\<close>



subsection \<open>Pre-order lists\<close>

lemma pruned_pre_order_True: "pruned_pre_order (\<lambda>e. True) t = pre_order t"
  by (induction t) (simp cong: map_cong)

lemma pruned_pre_order_subset: "set (pruned_pre_order q t) \<subseteq> set (pre_order t)"
  by (induction t) auto

lemma below_subset: "set (below a t) \<subseteq> set (pre_order t)"
  by (induction t) auto

lemma below_subset_children:
  "set (below a (Tree b ts)) \<subseteq> set (concat (map pre_order ts))"
proof (cases "a = b")
  case True
  then show ?thesis by simp
next
  case False
  have "set (below a t') \<subseteq> set (pre_order t')" for t'
    by (rule below_subset)
  with False show ?thesis by auto
qed

lemma distinct_concat_disjoint:
  "distinct (concat (map f xs)) \<Longrightarrow> x \<in> set xs \<Longrightarrow> y \<in> set xs \<Longrightarrow> x \<noteq> y \<Longrightarrow>
   set (f x) \<inter> set (f y) = {}"
  by (induction xs) auto

lemma distinct_concat_each:
  "distinct (concat (map f xs)) \<Longrightarrow> x \<in> set xs \<Longrightarrow> distinct (f x)"
  by (induction xs) auto

lemma pruned_pre_order_filter:
  "distinct (pre_order t) \<Longrightarrow> \<not> q (Ref a) \<Longrightarrow>
   pruned_pre_order q t =
     filter (\<lambda>e. e \<notin> set (below a t)) (pruned_pre_order (\<lambda>e. e = Ref a \<or> q e) t)"
proof (induction t)
  case (Tree b ts)
  let ?q' = "\<lambda>e. e = Ref a \<or> q e"
  let ?B = "set (below a (Tree b ts))"
  from Tree.prems(1) have nb: "Ref b \<notin> set (concat (map pre_order ts))"
    and dc: "distinct (concat (map pre_order ts))" by simp_all
  show ?case
  proof (cases "a = b")
    case True
    have "\<forall>e \<in> set (concat (map (pruned_pre_order ?q') ts)). e \<in> set (concat (map pre_order ts))"
      using pruned_pre_order_subset by fastforce
    then have "filter (\<lambda>e. e \<notin> set (concat (map pre_order ts)))
        (concat (map (pruned_pre_order ?q') ts)) = []"
      by (simp add: filter_empty_conv)
    with True Tree.prems(2) nb show ?thesis by simp
  next
    case False
    have Bsub: "?B \<subseteq> set (concat (map pre_order ts))"
      by (rule below_subset_children)
    with nb have nbB: "Ref b \<notin> ?B" by blast
    have each: "pruned_pre_order q t' = filter (\<lambda>e. e \<notin> ?B) (pruned_pre_order ?q' t')"
      if t': "t' \<in> set ts" for t'
    proof -
      have "distinct (pre_order t')" using distinct_concat_each[OF dc t'] .
      from Tree.IH[OF t' this Tree.prems(2)]
      have IH: "pruned_pre_order q t' =
          filter (\<lambda>e. e \<notin> set (below a t')) (pruned_pre_order ?q' t')" .
      have "(e \<notin> ?B) = (e \<notin> set (below a t'))" if e: "e \<in> set (pruned_pre_order ?q' t')" for e
      proof
        assume "e \<notin> ?B"
        with t' False show "e \<notin> set (below a t')" by auto
      next
        assume n: "e \<notin> set (below a t')"
        show "e \<notin> ?B"
        proof
          assume "e \<in> ?B"
          with False obtain t'' where t'': "t'' \<in> set ts" and eb: "e \<in> set (below a t'')"
            by auto
          from eb below_subset have "e \<in> set (pre_order t'')"
            by blast
          moreover from e pruned_pre_order_subset have "e \<in> set (pre_order t')" by blast
          ultimately have "t'' = t'"
            using distinct_concat_disjoint[OF dc t'' t'] by blast
          with eb n show False by simp
        qed
      qed
      then have "filter (\<lambda>e. e \<notin> ?B) (pruned_pre_order ?q' t') =
          filter (\<lambda>e. e \<notin> set (below a t')) (pruned_pre_order ?q' t')"
        by (intro filter_cong) auto
      with IH show ?thesis by simp
    qed
    have "concat (map (pruned_pre_order q) ts) =
        filter (\<lambda>e. e \<notin> ?B) (concat (map (pruned_pre_order ?q') ts))"
      using each by (simp add: filter_concat comp_def cong: map_cong)
    with False nbB show ?thesis by auto
  qed
qed

lemma decides_continue_iff: "decides (continue_iff p) p"
  by (simp add: decides_def continue_iff_def)

subsection \<open>Walks of a tree that may end in the panic of the default branch\<close>










lemma root_of_in_pruned_pre_order: "root_of t \<in> set (pruned_pre_order q t)"
  by (cases t) simp

subsection \<open>Facts about the examples\<close>

lemma repr_Grammar: "repr heap_Grammar tree_Grammar"
  by (simp add: heap_Grammar_def tree_Grammar_def)

lemma height_Grammar: "height tree_Grammar \<le> 5"
  by (simp add: tree_Grammar_def)

lemma distinct_Grammar: "distinct (pre_order tree_Grammar)"
  by (simp add: tree_Grammar_def)

lemma below_4_Grammar: "below 4 tree_Grammar = [Ref 6, Ref 7]"
  by (simp add: tree_Grammar_def)

lemma decides_always_continue: "decides always_continue (\<lambda>expr h. True)"
  by (simp add: always_continue_def decides_continue_iff)

lemma decides_always_continue_4:
  "decides always_continue (\<lambda>expr h. expr = Ref 4 \<or> not_node 4 expr h)"
  by (simp add: always_continue_def continue_iff_def decides_def not_node_def)

lemma heap_preserving_always_continue: "heap_preserving always_continue"
  by (simp add: always_continue_def heap_preserving_continue_iff)




lemma ignores_Backref_assign_Expr_of: "ignores_Backref (assign_Expr_of p d)"
  by (simp add: ignores_Backref_def assign_Expr_of_def)

lemma Walk_OneOrMore_full:
  "Walk 2 always_continue () (Ref 0) (start heap_OneOrMore) =
     Some (Inr \<lparr>hp = heap_OneOrMore, vst = (), visited = [Ref 0, Ref 1]\<rparr>)"
  by (simp add: Walk_def always_continue_def continue_iff_def start_def heap_OneOrMore_def
      numeral_2_eq_2 walk0.simps)


lemma Walk_Grammar_pruned_at_4:
  "Walk 5 (continue_iff (not_node 4)) () (Ref 0) (start heap_Grammar) =
     Some (Inr \<lparr>hp = heap_Grammar, vst = (),
       visited = [Ref 0, Ref 1, Ref 2, Ref 3, Ref 4, Ref 5, Ref 8]\<rparr>)"
  by (simp add: Walk_def continue_iff_def not_node_def start_def heap_Grammar_def
      eval_nat_numeral walk0.simps range_elem_def upt_rec)

text \<open>
  A visitor that replaces the rule of the grammar while it visits that rule: a non-Rule
  makes the walk panic, with the heap as it was; a Rule is installed in the slot, and the
  walk goes on into the rule it had already read.
\<close>

lemma Walk_Grammar_replace_Rule_by_LitMatcher:
  "Walk 5 (replace_at 1 (Ref 3)) () (Ref 0) (start heap_Grammar) =
     Some (Inl (TypeAssertion, \<lparr>hp = heap_Grammar, vst = (), visited = [Ref 0, Ref 1]\<rparr>))"
  by (simp add: Walk_def replace_at_def start_def heap_Grammar_def eval_nat_numeral walk0.simps
      range_elem_def upt_rec mk_replacer_def set_Rules_def assert_Rule_def)

lemma Walk_Grammar_replace_Rule_by_Rule:
  "Walk 5 (replace_at 1 (Ref 9)) () (Ref 0) (start heap_Grammar) =
     Some (Inr \<lparr>hp = heap_Grammar(0 \<mapsto> Grammar [9]), vst = (),
       visited = [Ref 0, Ref 1, Ref 2, Ref 3, Ref 4, Ref 6, Ref 7, Ref 5, Ref 8]\<rparr>)"
  by (simp add: Walk_def replace_at_def start_def heap_Grammar_def eval_nat_numeral walk0.simps
      range_elem_def upt_rec mk_replacer_def set_Rules_def assert_Rule_def)

section \<open>The claims\<close>

text \<open>
  C1 (violated by the code). The comments of \<open>Visitor\<close> and \<open>Walk\<close> promise that the walk of
  the children of a node is followed by a call \<open>w.Visit(nil)\<close>. Neither \<open>walk0\<close> nor
  \<open>walkVisitor\<close> nor \<open>walkReplacer\<close> makes that call: nothing follows the second type switch.
  A full walk of a \<open>OneOrMoreExpr\<close> over a \<open>LitMatcher\<close> makes two calls of \<open>Visit\<close>, one for
  each node, and none with the argument \<open>Nil\<close>; the comments describe four calls,
  \<open>[Ref 0, Ref 1, Nil, Nil]\<close>.
\<close>

theorem Walk_makes_no_Visit_nil_call:
  "Walk 2 always_continue () (Ref 0) (start heap_OneOrMore) =
     Some (Inr \<lparr>hp = heap_OneOrMore, vst = (), visited = [Ref 0, Ref 1]\<rparr>)"
  by (simp add: Walk_def always_continue_def continue_iff_def start_def heap_OneOrMore_def
      numeral_2_eq_2 walk0.simps)

text \<open>
  C2 (amended). The walker reads a child slot after the visit of the parent has returned
  and before the visit of the child. The replacer for a slot is handed to the visitor
  together with the child, that is after the slot has been read. So a replacement made
  through the back-reference is written to the parent, and is there when the walk has
  ended, but the walk goes on with the node it has read: for a \<open>OneOrMoreExpr\<close> over a
  \<open>LitMatcher\<close>, replaced by a \<open>CharClassMatcher\<close> through the back-reference, the calls of
  \<open>Visit\<close> are those for the \<open>OneOrMoreExpr\<close> and the \<open>LitMatcher\<close>. A write that reaches the
  slot while the parent is visited does take effect: when the visitor assigns the
  \<open>CharClassMatcher\<close> to the field \<open>Expr\<close> during the visit of the \<open>OneOrMoreExpr\<close>, the walk
  visits the \<open>CharClassMatcher\<close> and not the \<open>LitMatcher\<close>.
\<close>

theorem replacement_takes_effect_when_slot_is_read_later:
  assumes "h p = Some (OneOrMoreExpr (Ref c))" and "h c = Some LitMatcher"
    and "h d = Some CharClassMatcher"
  shows "Walk (Suc (Suc n)) (replace_LitMatcher d) () (Ref p) \<lparr>hp = h, vst = u, visited = []\<rparr> =
           Some (Inr \<lparr>hp = h(p \<mapsto> OneOrMoreExpr (Ref d)), vst = u, visited = [Ref p, Ref c]\<rparr>) \<and>
         Walk (Suc (Suc n)) (assign_Expr_of p d) () (Ref p) \<lparr>hp = h, vst = u, visited = []\<rparr> =
           Some (Inr \<lparr>hp = h(p \<mapsto> OneOrMoreExpr (Ref d)), vst = u, visited = [Ref p, Ref d]\<rparr>)"
proof -
  from assms have ne: "p \<noteq> c" "d \<noteq> p" "c \<noteq> p" by auto
  show ?thesis
    using assms ne
    by (simp add: Walk_def replace_LitMatcher_def assign_Expr_of_def walk0.simps
        mk_replacer_def set_Expr_def)
qed

text \<open>
  The claim as stated fails: the \<open>CharClassMatcher\<close> at address 2 replaces the \<open>LitMatcher\<close>
  at address 1 through the back-reference, and the walk visits the \<open>LitMatcher\<close> and never
  the \<open>CharClassMatcher\<close>.
\<close>

theorem replacement_of_visited_node_counterexample:
  "Walk 2 (replace_LitMatcher 2) () (Ref 0) (start heap_OneOrMore) =
     Some (Inr \<lparr>hp = heap_OneOrMore(0 \<mapsto> OneOrMoreExpr (Ref 2)), vst = (),
                 visited = [Ref 0, Ref 1]\<rparr>)"
  by (simp add: Walk_def replace_LitMatcher_def start_def heap_OneOrMore_def
      numeral_2_eq_2 walk0.simps mk_replacer_def set_Expr_def)

theorem replacement_takes_effect_when_slot_is_read_later_witness:
  "heap_OneOrMore 0 = Some (OneOrMoreExpr (Ref 1)) \<and> heap_OneOrMore 1 = Some LitMatcher \<and>
   heap_OneOrMore 2 = Some CharClassMatcher \<and>
   Walk 2 (replace_LitMatcher 2) () (Ref 0) \<lparr>hp = heap_OneOrMore, vst = (), visited = []\<rparr> =
     Some (Inr \<lparr>hp = heap_OneOrMore(0 \<mapsto> OneOrMoreExpr (Ref 2)), vst = (),
                 visited = [Ref 0, Ref 1]\<rparr>) \<and>
   Walk 2 (assign_Expr_of 0 2) () (Ref 0) \<lparr>hp = heap_OneOrMore, vst = (), visited = []\<rparr> =
     Some (Inr \<lparr>hp = heap_OneOrMore(0 \<mapsto> OneOrMoreExpr (Ref 2)), vst = (),
                 visited = [Ref 0, Ref 2]\<rparr>)"
proof -
  have a: "heap_OneOrMore 0 = Some (OneOrMoreExpr (Ref 1))"
    and b: "heap_OneOrMore 1 = Some LitMatcher"
    and c: "heap_OneOrMore 2 = Some CharClassMatcher"
    by (simp_all add: heap_OneOrMore_def)
  from replacement_takes_effect_when_slot_is_read_later[OF a b c, of 0 "()"] a b c
  show ?thesis by (simp add: numeral_2_eq_2)
qed

text \<open>
  C3. The replacer that \<open>walk0\<close> builds for the slot \<open>index\<close> of the \<open>Rules\<close> of the grammar
  at \<open>p\<close>: applied to an expression that is not a Rule it panics (the type assertion fails
  when the replacer is applied, and nothing is written); applied to a Rule it returns, and
  the Rule is the element \<open>index\<close> of \<open>Rules\<close>.
\<close>

theorem Grammar_slot_takes_Rules_only:
  assumes "h0 p = Some (Grammar rules0)" and "h p = Some (Grammar rules)"
    and "index < length rules"
  shows "(\<not> is_Rule h expr \<longrightarrow> mk_replacer h0 (Ref p) index expr h = Inl TypeAssertion) \<and>
         (is_Rule h (Ref r) \<longrightarrow>
            mk_replacer h0 (Ref p) index (Ref r) h = Inr (h(p \<mapsto> Grammar (rules[index := r]))))"
  using assms
  by (auto simp: mk_replacer_def set_Rules_def assert_Rule_def is_Rule_def
      split: expression.splits option.splits node.splits)

theorem Grammar_slot_takes_Rules_only_witness:
  "heap_Grammar 0 = Some (Grammar [1]) \<and> (0::nat) < length [1::addr] \<and>
   \<not> is_Rule heap_Grammar (Ref 3) \<and>
   mk_replacer heap_Grammar (Ref 0) 0 (Ref 3) heap_Grammar = Inl TypeAssertion \<and>
   is_Rule heap_Grammar (Ref 9) \<and>
   mk_replacer heap_Grammar (Ref 0) 0 (Ref 9) heap_Grammar =
     Inr (heap_Grammar(0 \<mapsto> Grammar [9]))"
proof -
  have a: "heap_Grammar 0 = Some (Grammar [1])" by (simp add: heap_Grammar_def)
  have b: "(0::nat) < length [1::addr]" by simp
  have c: "\<not> is_Rule heap_Grammar (Ref 3)" and d: "is_Rule heap_Grammar (Ref 9)"
    by (simp_all add: is_Rule_def heap_Grammar_def)
  from Grammar_slot_takes_Rules_only[where ?h0.0=heap_Grammar and h=heap_Grammar and p=0
      and expr="Ref 3" and r=9, OF a a b] a c d
  show ?thesis by simp
qed

text \<open>
  C4. A full walk (by any visitor that continues at every node and writes nothing) of a
  tree makes its calls of \<open>Visit\<close> in pre-order: a node first, then the walks of its
  children, from the first to the last in the order of the data model; for a node with the
  children \<open>[A, B, C]\<close> that is the node, all of \<open>A\<close>, all of \<open>B\<close>, all of \<open>C\<close>, and for
  \<open>[X, Y]\<close> the node, all of \<open>X\<close>, all of \<open>Y\<close>. The result is a function of the tree and the
  visitor. With enough fuel for the height of the tree the walk returns.
\<close>

theorem full_walk_is_pre_order:
  assumes "decides vis (\<lambda>expr h. True)" and "repr h t" and "height t \<le> n"
  shows "(\<exists>u'. Walk n vis v (root_of t) \<lparr>hp = h, vst = u, visited = []\<rparr> =
           Some (Inr \<lparr>hp = h, vst = u', visited = pre_order t\<rparr>)) \<and>
         pre_order (Tree c [A, B, C]) = Ref c # pre_order A @ pre_order B @ pre_order C \<and>
         pre_order (Tree s [X, Y]) = Ref s # pre_order X @ pre_order Y"
  using walk0_decides[OF assms(1) assms(2) assms(3), where st="\<lparr>hp = h, vst = u, visited = []\<rparr>"
      and v=v and ?parent0.0=Nil and index=0]
  by (simp add: Walk_def pruned_pre_order_True)

text \<open>
  In the example the \<open>ChoiceExpr\<close> at 2 has the alternatives 3, 4, 5 and the \<open>SeqExpr\<close> at 4
  has the elements 6, 7.
\<close>

theorem full_walk_is_pre_order_witness:
  "decides (always_continue :: (unit, unit) visitor) (\<lambda>expr h. True) \<and>
   repr heap_Grammar tree_Grammar \<and> height tree_Grammar \<le> 5 \<and>
   Walk 5 always_continue () (Ref 0) \<lparr>hp = heap_Grammar, vst = (), visited = []\<rparr> =
     Some (Inr \<lparr>hp = heap_Grammar, vst = (),
       visited = [Ref 0, Ref 1, Ref 2, Ref 3, Ref 4, Ref 6, Ref 7, Ref 5, Ref 8]\<rparr>)"
  using full_walk_is_pre_order[OF decides_always_continue repr_Grammar height_Grammar,
      where v="()" and u="()"]
    decides_always_continue repr_Grammar height_Grammar
  by (simp add: tree_Grammar_def)

text \<open>
  C5. For every visitor, when the call of \<open>Visit\<close> for a node \<open>N\<close> returns nil, the walk of
  \<open>N\<close> is over with that one call: \<open>walk0\<close> returns without reading the children of \<open>N\<close>.
  For the whole tree: let the visitor decide by \<open>p\<close>, and let \<open>p\<close> fail at the node \<open>N\<close> at
  address \<open>a\<close> of a strict tree (no address occurs twice). Then the walk returns, and its
  calls of \<open>Visit\<close> are the pruned pre-order of the tree. No child or deeper descendant of
  \<open>N\<close> is among them, and they are the calls of the walk that continues at \<open>N\<close> as well,
  without the calls for the nodes below \<open>N\<close>, in the same order: every node outside the
  subtree of \<open>N\<close> that the other walk reaches is visited. For the siblings: wherever the
  parent of \<open>N\<close> is walked, and the visitor continues there, the calls are those for the
  parent, for the walks of the earlier siblings, for \<open>N\<close> alone, and for the walks of the
  later siblings, each of which is visited.
\<close>

theorem pruning_skips_the_subtree_only:
  assumes "decides vis1 p" and "decides vis2 (\<lambda>expr h. expr = Ref a \<or> p expr h)"
    and "repr h t" and "distinct (pre_order t)" and "\<not> p (Ref a) h" and "height t \<le> n"
  shows "(vis v expr \<lparr>parent = parent0, replacer = mk_replacer (hp st) parent0 index\<rparr>
            (hp st) (vst st) = Inr (None, h', u') \<longrightarrow>
          walk0 (Suc m) vis v expr parent0 index st =
            Some (Inr \<lparr>hp = h', vst = u', visited = visited st @ [expr]\<rparr>)) \<and>
    (\<exists>u'. Walk n vis1 v1 (root_of t) \<lparr>hp = h, vst = u1, visited = []\<rparr> =
       Some (Inr \<lparr>hp = h, vst = u', visited = pruned_pre_order (\<lambda>e. p e h) t\<rparr>)) \<and>
    (\<exists>u'. Walk n vis2 v2 (root_of t) \<lparr>hp = h, vst = u2, visited = []\<rparr> =
       Some (Inr \<lparr>hp = h, vst = u',
         visited = pruned_pre_order (\<lambda>e. e = Ref a \<or> p e h) t\<rparr>)) \<and>
    set (pruned_pre_order (\<lambda>e. p e h) t) \<inter> set (below a t) = {} \<and>
    pruned_pre_order (\<lambda>e. p e h) t =
      filter (\<lambda>e. e \<notin> set (below a t)) (pruned_pre_order (\<lambda>e. e = Ref a \<or> p e h) t) \<and>
    (repr h (Tree b (ls @ Tree a cs # rs)) \<and> p (Ref b) h \<and>
       height (Tree b (ls @ Tree a cs # rs)) \<le> k \<and> hp st' = h \<longrightarrow>
       (\<exists>u'. walk0 k vis1 v' (Ref b) parent' index' st' =
          Some (Inr \<lparr>hp = h, vst = u',
            visited = visited st' @ Ref b # concat (map (pruned_pre_order (\<lambda>e. p e h)) ls) @
              Ref a # concat (map (pruned_pre_order (\<lambda>e. p e h)) rs)\<rparr>)) \<and>
       (\<forall>r \<in> set rs. root_of r \<in> set (concat (map (pruned_pre_order (\<lambda>e. p e h)) rs))))"
proof -
  let ?q = "\<lambda>e. p e h"
  let ?P = "pruned_pre_order ?q"
  have A: "walk0 (Suc m) vis v expr parent0 index st =
            Some (Inr \<lparr>hp = h', vst = u', visited = visited st @ [expr]\<rparr>)"
    if "vis v expr \<lparr>parent = parent0, replacer = mk_replacer (hp st) parent0 index\<rparr>
            (hp st) (vst st) = Inr (None, h', u')"
    using that by (simp add: walk0.simps)
  have B: "\<exists>u'. Walk n vis1 v1 (root_of t) \<lparr>hp = h, vst = u1, visited = []\<rparr> =
       Some (Inr \<lparr>hp = h, vst = u', visited = ?P t\<rparr>)"
    using walk0_decides[OF assms(1) assms(3) assms(6),
        where st="\<lparr>hp = h, vst = u1, visited = []\<rparr>" and v=v1 and ?parent0.0=Nil and index=0]
    by (simp add: Walk_def)
  have C: "\<exists>u'. Walk n vis2 v2 (root_of t) \<lparr>hp = h, vst = u2, visited = []\<rparr> =
       Some (Inr \<lparr>hp = h, vst = u',
         visited = pruned_pre_order (\<lambda>e. e = Ref a \<or> p e h) t\<rparr>)"
    using walk0_decides[OF assms(2) assms(3) assms(6),
        where st="\<lparr>hp = h, vst = u2, visited = []\<rparr>" and v=v2 and ?parent0.0=Nil and index=0]
    by (simp add: Walk_def)
  have E: "?P t = filter (\<lambda>e. e \<notin> set (below a t)) (pruned_pre_order (\<lambda>e. e = Ref a \<or> p e h) t)"
    using pruned_pre_order_filter[OF assms(4), of ?q a] assms(5) by simp
  have D: "set (?P t) \<inter> set (below a t) = {}"
  proof -
    from E have "set (?P t) =
        set (filter (\<lambda>e. e \<notin> set (below a t)) (pruned_pre_order (\<lambda>e. e = Ref a \<or> p e h) t))"
      by (rule arg_cong)
    then show ?thesis by auto
  qed
  have F: "(\<exists>u'. walk0 k vis1 v' (Ref b) parent' index' st' =
          Some (Inr \<lparr>hp = h, vst = u',
            visited = visited st' @ Ref b # concat (map ?P ls) @ Ref a # concat (map ?P rs)\<rparr>)) \<and>
       (\<forall>r \<in> set rs. root_of r \<in> set (concat (map ?P rs)))"
    if r: "repr h (Tree b (ls @ Tree a cs # rs))" and pb: "p (Ref b) h"
      and hk: "height (Tree b (ls @ Tree a cs # rs)) \<le> k" and hs: "hp st' = h"
  proof -
    have "?P (Tree b (ls @ Tree a cs # rs)) =
        Ref b # concat (map ?P ls) @ Ref a # concat (map ?P rs)"
      using pb assms(5) by simp
    with walk0_decides[OF assms(1) r hk hs, of v' parent' index']
    have 1: "\<exists>u'. walk0 k vis1 v' (Ref b) parent' index' st' =
          Some (Inr \<lparr>hp = h, vst = u',
            visited = visited st' @ Ref b # concat (map ?P ls) @ Ref a # concat (map ?P rs)\<rparr>)"
      by simp
    have 2: "\<forall>r \<in> set rs. root_of r \<in> set (concat (map ?P rs))"
      using root_of_in_pruned_pre_order by auto
    from 1 2 show ?thesis by blast
  qed
  from A B C D E F show ?thesis by blast
qed

text \<open>
  In the example the walk is pruned at the \<open>SeqExpr\<close> at 4, the second alternative of the
  \<open>ChoiceExpr\<close> at 2; its later sibling is the node at 5, with the child at 8.
\<close>

theorem pruning_skips_the_subtree_only_witness:
  "decides (continue_iff (not_node 4) :: (unit, unit) visitor) (not_node 4) \<and>
   decides (always_continue :: (unit, unit) visitor)
     (\<lambda>expr h. expr = Ref 4 \<or> not_node 4 expr h) \<and>
   repr heap_Grammar tree_Grammar \<and> distinct (pre_order tree_Grammar) \<and>
   \<not> not_node 4 (Ref 4) heap_Grammar \<and> height tree_Grammar \<le> 5 \<and>
   continue_iff (not_node 4) () (Ref 4)
     \<lparr>parent = Ref 2, replacer = mk_replacer heap_Grammar (Ref 2) 1\<rparr> heap_Grammar () =
     Inr (None, heap_Grammar, ()) \<and>
   walk0 1 (continue_iff (not_node 4)) () (Ref 4) (Ref 2) 1
     \<lparr>hp = heap_Grammar, vst = (), visited = [Ref 0, Ref 1, Ref 2, Ref 3]\<rparr> =
     Some (Inr \<lparr>hp = heap_Grammar, vst = (),
       visited = [Ref 0, Ref 1, Ref 2, Ref 3, Ref 4]\<rparr>) \<and>
   Walk 5 (continue_iff (not_node 4)) () (Ref 0)
       \<lparr>hp = heap_Grammar, vst = (), visited = []\<rparr> =
     Some (Inr \<lparr>hp = heap_Grammar, vst = (),
       visited = [Ref 0, Ref 1, Ref 2, Ref 3, Ref 4, Ref 5, Ref 8]\<rparr>) \<and>
   Walk 5 always_continue () (Ref 0) \<lparr>hp = heap_Grammar, vst = (), visited = []\<rparr> =
     Some (Inr \<lparr>hp = heap_Grammar, vst = (),
       visited = [Ref 0, Ref 1, Ref 2, Ref 3, Ref 4, Ref 6, Ref 7, Ref 5, Ref 8]\<rparr>) \<and>
   set [Ref 0, Ref 1, Ref 2, Ref 3, Ref 4, Ref 5, Ref 8] \<inter> set [Ref 6, Ref 7] = {} \<and>
   [Ref 0, Ref 1, Ref 2, Ref 3, Ref 4, Ref 5, Ref 8] =
     filter (\<lambda>e. e \<notin> set [Ref 6, Ref 7])
       [Ref 0, Ref 1, Ref 2, Ref 3, Ref 4, Ref 6, Ref 7, Ref 5, Ref 8] \<and>
   repr heap_Grammar (Tree 2 ([Tree 3 []] @ Tree 4 [Tree 6 [], Tree 7 []] # [Tree 5 [Tree 8 []]])) \<and>
   not_node 4 (Ref 2) heap_Grammar \<and>
   height (Tree 2 ([Tree 3 []] @ Tree 4 [Tree 6 [], Tree 7 []] # [Tree 5 [Tree 8 []]])) \<le> 3 \<and>
   walk0 3 (continue_iff (not_node 4)) () (Ref 2) (Ref 1) 0
       \<lparr>hp = heap_Grammar, vst = (), visited = [Ref 0, Ref 1]\<rparr> =
     Some (Inr \<lparr>hp = heap_Grammar, vst = (),
       visited = [Ref 0, Ref 1, Ref 2, Ref 3, Ref 4, Ref 5, Ref 8]\<rparr>) \<and>
   Ref 5 \<in> set [Ref 5, Ref 8]"
proof -
  let ?sub = "Tree 2 ([Tree 3 []] @ Tree 4 [Tree 6 [], Tree 7 []] # [Tree 5 [Tree 8 []]])"
  have n: "\<not> not_node 4 (Ref 4) heap_Grammar" by (simp add: not_node_def)
  have c: "continue_iff (not_node 4) () (Ref 4)
      \<lparr>parent = Ref 2, replacer = mk_replacer heap_Grammar (Ref 2) 1\<rparr> heap_Grammar () =
      Inr (None, heap_Grammar, ())"
    by (simp add: continue_iff_def not_node_def)
  have r: "repr heap_Grammar ?sub" by (simp add: heap_Grammar_def)
  have pb: "not_node 4 (Ref 2) heap_Grammar" by (simp add: not_node_def)
  have hk: "height ?sub \<le> 3" by simp
  have nn: "not_node 4 e heap_Grammar = (e \<noteq> Ref 4)" for e by (simp add: not_node_def)
  from pruning_skips_the_subtree_only[OF decides_continue_iff decides_always_continue_4
      repr_Grammar distinct_Grammar n height_Grammar,
      where vis="continue_iff (not_node 4)" and v="()" and expr="Ref 4" and ?parent0.0="Ref 2"
        and index=1 and st="\<lparr>hp = heap_Grammar, vst = (), visited = [Ref 0, Ref 1, Ref 2, Ref 3]\<rparr>"
        and h'=heap_Grammar and u'="()" and m=0 and ?v1.0="()" and ?v2.0="()"
        and ?u1.0="()" and ?u2.0="()"
        and b=2 and ls="[Tree 3 []]" and cs="[Tree 6 [], Tree 7 []]" and rs="[Tree 5 [Tree 8 []]]"
        and k=3 and st'="\<lparr>hp = heap_Grammar, vst = (), visited = [Ref 0, Ref 1]\<rparr>"
        and v'="()" and parent'="Ref 1" and index'=0]
    decides_continue_iff[of "not_node 4"] decides_always_continue_4 repr_Grammar
    distinct_Grammar n height_Grammar c r pb hk
  show ?thesis by (simp add: tree_Grammar_def nn del: repr.simps)
qed

text \<open>
  C6. For a node without parent the replacer is the empty function: called with any
  expressions, any number of times, it returns and leaves the heap as it is. Hence a
  visitor that makes such calls whenever it visits a node without parent walks exactly as
  the visitor without them does: same calls, same heap, same result. The root is an
  argument of \<open>Walk\<close>, passed by value, so the caller's reference to it is not touched.
\<close>

theorem root_replacer_is_no_op:
  "apply_all (mk_replacer h0 Nil index) xs h = Inr h \<and>
   Walk n (writing_at_root xs vis) v expr st = Walk n vis v expr st"
proof -
  have "Walk n (writing_at_root xs vis) v expr st = Walk n vis v expr st"
  proof (cases n)
    case 0
    then show ?thesis by (simp add: Walk_def walk0.simps)
  next
    case (Suc m)
    then show ?thesis
      unfolding Walk_def
      by (cases expr)
        (simp_all add: walk0.simps writing_at_root_Nil walk0_writing_at_root_below Let_def
          cong: node.case_cong option.case_cong expression.case_cong sum.case_cong prod.case_cong)
  qed
  then show ?thesis by (simp add: apply_all_root)
qed

theorem root_replacer_is_no_op_witness:
  "apply_all (mk_replacer heap_Grammar Nil 0) [Ref 3, Nil, Ref 9] heap_Grammar =
     Inr heap_Grammar \<and>
   Walk 5 (writing_at_root [Ref 3, Nil, Ref 9] always_continue) () (Ref 0) (start heap_Grammar) =
     Walk 5 always_continue () (Ref 0) (start heap_Grammar)"
  by (rule root_replacer_is_no_op)




text \<open>
  C8. For a pure predicate \<open>p\<close>, \<open>Inspect\<close> (in both files) is the walk by the visitor that
  continues if and only if \<open>p\<close> holds of the node: the same calls of \<open>Visit\<close> in the same
  order, the same result, for every heap and every amount of fuel. The heap in which
  \<open>Inspect\<close> ends is the heap in which it started: nothing is replaced. The adapter does
  not look at the back-reference, whatever the function it wraps.
\<close>

theorem Inspect_is_Walk_continue_iff:
  "Inspect n expr (pure_inspector p) st = Walk n (continue_iff p) () expr st \<and>
   Inspect_VR n expr (pure_inspector p) st = Walk n (continue_iff p) () expr st \<and>
   (\<forall>r. Inspect n expr (pure_inspector p) st = Some r \<longrightarrow> hp (final r) = hp st) \<and>
   inspector_Visit f e br h u = inspector_Visit f e br' h u"
proof -
  have 4: "inspector_Visit f e br h u = inspector_Visit f e br' h u"
    by (simp add: inspector_Visit_def)
  have 1: "Inspect n expr (pure_inspector p) st = Walk n (continue_iff p) () expr st"
    by (simp add: Inspect_def Walk_def walk0_inspector)
  have "Inspect_VR n expr (pure_inspector p) st = Inspect n expr (pure_inspector p) st"
    by (simp add: Inspect_VR_def Walk_VR_def Inspect_def Walk_def
        walkVisitor_walk0[where ?parent0.0=Nil and index=0] inspector_Visit_VR_eq)
  with 1 have 2: "Inspect_VR n expr (pure_inspector p) st = Walk n (continue_iff p) () expr st"
    by simp
  have 3: "hp (final r) = hp st" if "Inspect n expr (pure_inspector p) st = Some r" for r
    using that 1 walk0_frame[OF heap_preserving_continue_iff, where n=n and expr=expr and ?parent0.0=Nil and index=0 and st=st and r=r]
    by (simp add: Walk_def)
  from 1 2 3 4 show ?thesis by blast
qed

theorem Inspect_is_Walk_continue_iff_witness:
  "Inspect 5 (Ref 0) (pure_inspector (not_node 4)) (start heap_Grammar) =
     Walk 5 (continue_iff (not_node 4)) () (Ref 0) (start heap_Grammar) \<and>
   Inspect_VR 5 (Ref 0) (pure_inspector (not_node 4)) (start heap_Grammar) =
     Walk 5 (continue_iff (not_node 4)) () (Ref 0) (start heap_Grammar) \<and>
   Inspect 5 (Ref 0) (pure_inspector (not_node 4)) (start heap_Grammar) =
     Some (Inr \<lparr>hp = heap_Grammar, vst = (),
       visited = [Ref 0, Ref 1, Ref 2, Ref 3, Ref 4, Ref 5, Ref 8]\<rparr>) \<and>
   hp (final (Inr \<lparr>hp = heap_Grammar, vst = (),
       visited = [Ref 0, Ref 1, Ref 2, Ref 3, Ref 4, Ref 5, Ref 8]\<rparr>)) =
     hp (start heap_Grammar) \<and>
   inspector_Visit (pure_inspector (not_node 4)) (Ref 1)
       \<lparr>parent = Ref 0, replacer = mk_replacer heap_Grammar (Ref 0) 0\<rparr> heap_Grammar () =
     inspector_Visit (pure_inspector (not_node 4)) (Ref 1)
       \<lparr>parent = Nil, replacer = mk_replacer heap_Grammar Nil 0\<rparr> heap_Grammar ()"
  using Inspect_is_Walk_continue_iff[where n=5 and expr="Ref 0" and p="not_node 4"
      and st="start heap_Grammar" and f="pure_inspector (not_node 4)" and e="Ref 1"
      and br="\<lparr>parent = Ref 0, replacer = mk_replacer heap_Grammar (Ref 0) 0\<rparr>"
      and br'="\<lparr>parent = Nil, replacer = mk_replacer heap_Grammar Nil 0\<rparr>"
      and h=heap_Grammar and u="()"]
    Walk_Grammar_pruned_at_4
  by (simp add: final_def start_def)

text \<open>
  C9. The walker of \<open>ast_walk.go\<close> and the walker of \<open>part_000\<close> behave alike. A visitor
  that is not upgraded walks as the same \<open>Visit\<close> method does under \<open>part_000\<close> when it
  ignores the back-reference; an upgraded visitor walks as the same \<open>VisitReplace\<close> method
  does when it takes the replacer from the back-reference. The results are equal: the
  same calls in the same order, the same heap, the same panic, the same need of fuel.
\<close>

theorem Walk_VR_same_as_Walk:
  "Walk_VR n Visit VisitReplace upgrade v expr st =
     (case upgrade v of
        None \<Rightarrow> Walk n (ignoring_Backref Visit) v expr st
      | Some r \<Rightarrow> Walk n (via_Backref VisitReplace) r expr st)"
  by (simp add: Walk_VR_def Walk_def walkReplacer_walk0 walkVisitor_walk0[where ?parent0.0=Nil and index=0]
      split: option.split)

theorem Walk_VR_same_as_Walk_witness:
  "Walk_VR 5 always_Visit no_VisitReplace (\<lambda>v. None) () (Ref 0) (start heap_Grammar) =
     Walk 5 (ignoring_Backref always_Visit) () (Ref 0) (start heap_Grammar) \<and>
   Walk_VR 2 always_Visit (VisitReplace_LitMatcher 2) (\<lambda>v. Some ()) () (Ref 0)
       (start heap_OneOrMore) =
     Walk 2 (via_Backref (VisitReplace_LitMatcher 2)) () (Ref 0) (start heap_OneOrMore)"
  using Walk_VR_same_as_Walk[of 5 always_Visit no_VisitReplace "\<lambda>v. None" "()" "Ref 0"
      "start heap_Grammar"]
    Walk_VR_same_as_Walk[of 2 always_Visit "VisitReplace_LitMatcher 2" "\<lambda>v. Some ()" "()"
      "Ref 0" "start heap_OneOrMore"]
  by simp

text \<open>
  C10 (amended). \<open>Walk\<close> (of either file) writes nothing to the tree by itself: when no
  call of the visitor changes the heap, neither through the replacer it is handed nor by
  a write to a node, the heap in which the walk ends, by a return or by a panic, is the
  heap in which it started. All changes of the tree are made inside the calls of the
  visitor.
\<close>

theorem Walk_leaves_heap:
  "(heap_preserving vis \<and> Walk n vis v expr st = Some r \<longrightarrow> hp (final r) = hp st) \<and>
   (heap_preserving (ignoring_Backref Visit) \<and> heap_preserving (via_Backref VisitReplace) \<and>
      Walk_VR n' Visit VisitReplace upgrade v' expr' st' = Some r' \<longrightarrow>
      hp (final r') = hp st')"
proof -
  have 1: "hp (final r) = hp st" if "heap_preserving vis" and "Walk n vis v expr st = Some r"
    using that unfolding Walk_def by (rule walk0_frame)
  have 2: "hp (final r') = hp st'"
    if hv: "heap_preserving (ignoring_Backref Visit)"
      and hr: "heap_preserving (via_Backref VisitReplace)"
      and w: "Walk_VR n' Visit VisitReplace upgrade v' expr' st' = Some r'"
  proof (cases "upgrade v'")
    case None
    with w have "walk0 n' (ignoring_Backref Visit) v' expr' Nil 0 st' = Some r'"
      by (simp add: Walk_VR_def walkVisitor_walk0[where ?parent0.0=Nil and index=0])
    with hv show ?thesis by (rule walk0_frame)
  next
    case (Some x)
    with w have "walk0 n' (via_Backref VisitReplace) x expr' Nil 0 st' = Some r'"
      by (simp add: Walk_VR_def walkReplacer_walk0)
    with hr show ?thesis by (rule walk0_frame)
  qed
  from 1 2 show ?thesis by blast
qed

text \<open>
  The claim as stated fails: a visitor that never calls the replacer may still write to
  the nodes it is handed. This one does the same for every back-reference, and assigns
  the field \<open>Expr\<close> of the \<open>OneOrMoreExpr\<close> it visits; after the walk the tree has changed.
\<close>

theorem Walk_changes_heap_without_replacer_counterexample:
  "ignores_Backref (assign_Expr_of 0 2 :: (unit, unit) visitor) \<and>
   Walk 2 (assign_Expr_of 0 2) () (Ref 0) (start heap_OneOrMore) =
     Some (Inr \<lparr>hp = heap_OneOrMore(0 \<mapsto> OneOrMoreExpr (Ref 2)), vst = (),
                 visited = [Ref 0, Ref 2]\<rparr>) \<and>
   (heap_OneOrMore(0 \<mapsto> OneOrMoreExpr (Ref 2))) 0 \<noteq> heap_OneOrMore 0"
  by (simp add: ignores_Backref_assign_Expr_of)
    (simp add: Walk_def assign_Expr_of_def start_def heap_OneOrMore_def numeral_2_eq_2
      walk0.simps)

theorem Walk_leaves_heap_witness:
  "heap_preserving (always_continue :: (unit, unit) visitor) \<and>
   Walk 2 always_continue () (Ref 0) (start heap_OneOrMore) =
     Some (Inr \<lparr>hp = heap_OneOrMore, vst = (), visited = [Ref 0, Ref 1]\<rparr>) \<and>
   heap_preserving (ignoring_Backref (always_Visit :: (unit, unit) visit_method)) \<and>
   heap_preserving (via_Backref (no_VisitReplace :: (unit, unit) visit_replace_method)) \<and>
   Walk_VR 2 always_Visit no_VisitReplace (\<lambda>v. None) () (Ref 0) (start heap_OneOrMore) =
     Some (Inr \<lparr>hp = heap_OneOrMore, vst = (), visited = [Ref 0, Ref 1]\<rparr>) \<and>
   hp (final (Inr \<lparr>hp = heap_OneOrMore, vst = (), visited = [Ref 0, Ref 1]\<rparr>)) =
     hp (start heap_OneOrMore)"
proof -
  have a: "heap_preserving (ignoring_Backref (always_Visit :: (unit, unit) visit_method))"
    by (simp add: heap_preserving_def ignoring_Backref_def always_Visit_def)
  have b: "heap_preserving (via_Backref (no_VisitReplace :: (unit, unit) visit_replace_method))"
    by (simp add: heap_preserving_def via_Backref_def no_VisitReplace_def)
  have c: "Walk_VR 2 always_Visit no_VisitReplace (\<lambda>v. None) () (Ref 0) (start heap_OneOrMore) =
      Some (Inr \<lparr>hp = heap_OneOrMore, vst = (), visited = [Ref 0, Ref 1]\<rparr>)"
    by (simp add: Walk_VR_def always_Visit_def start_def heap_OneOrMore_def numeral_2_eq_2
        walkVisitor.simps)
  from Walk_leaves_heap[where vis="always_continue :: (unit, unit) visitor" and n=2 and v="()"
      and expr="Ref 0" and st="start heap_OneOrMore"
      and r="Inr \<lparr>hp = heap_OneOrMore, vst = (), visited = [Ref 0, Ref 1]\<rparr>"
      and Visit="always_Visit :: (unit, unit) visit_method"
      and VisitReplace="no_VisitReplace :: (unit, unit) visit_replace_method"
      and n'=2 and upgrade="\<lambda>v. None" and v'="()" and expr'="Ref 0"
      and st'="start heap_OneOrMore"
      and r'="Inr \<lparr>hp = heap_OneOrMore, vst = (), visited = [Ref 0, Ref 1]\<rparr>"]
    heap_preserving_always_continue Walk_OneOrMore_full a b c
  show ?thesis by simp
qed

end
